theory Spec2Isabelle
  imports Main "HOL-Library.AList" "HOL-Library.Sublist"
begin

section \<open>The store: a Redis keyspace behind a key-prefixing client\<close>

text \<open>
  The registry keeps its three indexes in Redis, through an ioredis client created with
  the option \<open>keyPrefix\<close>. A hash is an association list from fields to values, a set a
  list of members; a key whose hash or set becomes empty disappears, as in Redis. The
  order in which \<open>HKEYS\<close> and \<open>SMEMBERS\<close> list their elements is not fixed by Redis; here
  it is the order of the lists. User ids reach the store as their string rendering
  (\<open>uid.toString()\<close>, a template literal, or the client's own conversion of an argument),
  so a user id is a \<open>string\<close>.

  Every command names its key without the prefix; the client prepends \<open>keyPrefix\<close>.
  \<open>SCAN\<close> takes a pattern, not a key: its pattern is sent as it is, and the keys of its
  reply come back as they are stored, prefix included. \<open>sent\<close> counts the commands the
  client has issued, reads included.
\<close>

datatype rvalue = RHash "(string \<times> string) list" | RSet "string list"

datatype error = WRONGTYPE

type_synonym keyspace = "(string \<times> rvalue) list"

record IORedis =
  keyPrefix :: string
  db :: keyspace
  sent :: nat

type_synonym 'a io = "IORedis \<Rightarrow> (error + 'a) \<times> IORedis"

definition issue :: "IORedis \<Rightarrow> IORedis" where
  "issue r = r\<lparr>sent := Suc (sent r)\<rparr>"

definition lookup :: "IORedis \<Rightarrow> string \<Rightarrow> rvalue option" where
  "lookup r key = map_of (db r) (keyPrefix r @ key)"

definition as_hash :: "rvalue option \<Rightarrow> error + (string \<times> string) list" where
  "as_hash v = (case v of None \<Rightarrow> Inr [] | Some (RHash h) \<Rightarrow> Inr h | Some (RSet s) \<Rightarrow> Inl WRONGTYPE)"

definition as_set :: "rvalue option \<Rightarrow> error + string list" where
  "as_set v = (case v of None \<Rightarrow> Inr [] | Some (RSet s) \<Rightarrow> Inr s | Some (RHash h) \<Rightarrow> Inl WRONGTYPE)"

definition put :: "string \<Rightarrow> rvalue \<Rightarrow> IORedis \<Rightarrow> IORedis" where
  "put key v r =
     (if v = RHash [] \<or> v = RSet []
      then r\<lparr>db := AList.delete (keyPrefix r @ key) (db r)\<rparr>
      else r\<lparr>db := AList.update (keyPrefix r @ key) v (db r)\<rparr>)"

definition hget :: "string \<Rightarrow> string \<Rightarrow> string option io" where
  "hget key field r =
     (case as_hash (lookup r key) of
        Inl e \<Rightarrow> (Inl e, issue r)
      | Inr h \<Rightarrow> (Inr (map_of h field), issue r))"

definition hset :: "string \<Rightarrow> string \<Rightarrow> string \<Rightarrow> unit io" where
  "hset key field val r =
     (case as_hash (lookup r key) of
        Inl e \<Rightarrow> (Inl e, issue r)
      | Inr h \<Rightarrow> (Inr (), issue (put key (RHash (AList.update field val h)) r)))"

definition hdel :: "string \<Rightarrow> string \<Rightarrow> unit io" where
  "hdel key field r =
     (case as_hash (lookup r key) of
        Inl e \<Rightarrow> (Inl e, issue r)
      | Inr h \<Rightarrow> (Inr (), issue (put key (RHash (AList.delete field h)) r)))"

definition hexists :: "string \<Rightarrow> string \<Rightarrow> nat io" where
  "hexists key field r =
     (case as_hash (lookup r key) of
        Inl e \<Rightarrow> (Inl e, issue r)
      | Inr h \<Rightarrow> (Inr (if map_of h field = None then 0 else 1), issue r))"

definition hkeys :: "string \<Rightarrow> string list io" where
  "hkeys key r =
     (case as_hash (lookup r key) of
        Inl e \<Rightarrow> (Inl e, issue r)
      | Inr h \<Rightarrow> (Inr (map fst h), issue r))"

definition hlen :: "string \<Rightarrow> nat io" where
  "hlen key r =
     (case as_hash (lookup r key) of
        Inl e \<Rightarrow> (Inl e, issue r)
      | Inr h \<Rightarrow> (Inr (length h), issue r))"

definition sadd :: "string \<Rightarrow> string \<Rightarrow> unit io" where
  "sadd key member r =
     (case as_set (lookup r key) of
        Inl e \<Rightarrow> (Inl e, issue r)
      | Inr s \<Rightarrow> (Inr (), issue (put key (RSet (List.insert member s)) r)))"

definition srem :: "string \<Rightarrow> string \<Rightarrow> unit io" where
  "srem key member r =
     (case as_set (lookup r key) of
        Inl e \<Rightarrow> (Inl e, issue r)
      | Inr s \<Rightarrow> (Inr (), issue (put key (RSet (removeAll member s)) r)))"

definition smembers :: "string \<Rightarrow> string list io" where
  "smembers key r =
     (case as_set (lookup r key) of
        Inl e \<Rightarrow> (Inl e, issue r)
      | Inr s \<Rightarrow> (Inr s, issue r))"

definition del :: "string list \<Rightarrow> unit io" where
  "del keys r =
     (Inr (), issue (r\<lparr>db := fold (\<lambda>k. AList.delete (keyPrefix r @ k)) keys (db r)\<rparr>))"

text \<open>
  \<open>SCAN cursor MATCH pfx* COUNT n\<close>: one page of at most \<open>n\<close> stored keys from position
  \<open>cursor\<close> on, of which those that start with \<open>pfx\<close> are returned, and the next cursor,
  \<open>0\<close> once the keyspace is exhausted. The pattern is taken to hold no glob character
  besides the final star.
\<close>

definition scan :: "nat \<Rightarrow> string \<Rightarrow> nat \<Rightarrow> (nat \<times> string list) io" where
  "scan cursor pfx n r =
     (let ks = map fst (db r);
          page = take n (drop cursor ks);
          nxt = (if cursor + n < length ks then cursor + n else 0)
      in (Inr (nxt, filter (prefix pfx) page), issue r))"

subsection \<open>Sequencing awaited and un-awaited commands\<close>

text \<open>
  \<open>bnd\<close> is \<open>await\<close> followed by the rest of the function: a rejected command ends the
  function with that rejection, and what was written before stays written. \<open>forget\<close> is a
  command issued without \<open>await\<close>: it is applied in issue order, and its rejection never
  reaches the caller.
\<close>

definition ret :: "'a \<Rightarrow> 'a io" where
  "ret a r = (Inr a, r)"

definition bnd :: "'a io \<Rightarrow> ('a \<Rightarrow> 'b io) \<Rightarrow> 'b io" where
  "bnd m f r = (case m r of (Inl e, r') \<Rightarrow> (Inl e, r') | (Inr a, r') \<Rightarrow> f a r')"

definition forget :: "'a io \<Rightarrow> unit io" where
  "forget m r = (Inr (), snd (m r))"

text \<open>JavaScript truthiness of a string that may be \<open>null\<close> or \<open>undefined\<close>.\<close>

definition truthy :: "string option \<Rightarrow> bool" where
  "truthy s = (case s of None \<Rightarrow> False | Some x \<Rightarrow> x \<noteq> [])"

text \<open>\<open>k.replace(p, '')\<close>: the first occurrence of \<open>p\<close> in \<open>k\<close> is removed.\<close>

fun replace_first :: "string \<Rightarrow> string \<Rightarrow> string" where
  "replace_first p [] = []"
| "replace_first p (c # cs) =
     (if prefix p (c # cs) then drop (length p) (c # cs) else c # replace_first p cs)"

section \<open>ChannelManager\<close>

text \<open>
  \<open>options\<close> is the \<open>keyPrefix\<close> of \<open>opts.options\<close> when \<open>opts.options\<close> is given. The
  constructor fills in the default prefix; \<open>redis\<close> is \<open>undefined\<close> (\<open>None\<close>) until
  \<open>start\<close>. A promise resolved with \<open>undefined\<close> is \<open>Inr None\<close>, one resolved with a value
  \<open>Inr (Some v)\<close>, a rejected one \<open>Inl e\<close>.
\<close>

record Options =
  options :: "string option"
  cleanOnStartUp :: bool

record ChannelManager =
  opts :: Options
  redis :: "IORedis option"

definition DEFALT_PREFIX :: string where
  "DEFALT_PREFIX = ''{POMELO-GLOBALCHANNEL}''"

definition new_ChannelManager :: "Options \<Rightarrow> ChannelManager" where
  "new_ChannelManager os =
     \<lparr>opts = (if options os = None then os\<lparr>options := Some DEFALT_PREFIX\<rparr> else os),
      redis = None\<rparr>"

text \<open>
  \<open>start\<close> opens the connection; \<open>srv\<close> is the keyspace found at the configured address
  and \<open>ready\<close> tells whether the connection's \<open>ready\<close> event fires. The first component
  of the result tells whether the callback was invoked.
\<close>

definition ChannelManager_start :: "keyspace \<Rightarrow> bool \<Rightarrow> ChannelManager \<Rightarrow> bool \<times> ChannelManager" where
  "ChannelManager_start srv ready m =
     (ready,
      m\<lparr>redis := Some \<lparr>keyPrefix = (case options (opts m) of None \<Rightarrow> [] | Some p \<Rightarrow> p),
                          db = srv, sent = 0\<rparr>\<rparr>)"

text \<open>\<open>stop\<close> quits the connection; the field \<open>redis\<close> keeps the handle.\<close>

definition ChannelManager_stop :: "bool \<Rightarrow> ChannelManager \<Rightarrow> ChannelManager" where
  "ChannelManager_stop force m = m"

text \<open>
  \<open>run\<close> executes the part of a method that follows the test of \<open>this.redis\<close>, on the
  connection \<open>r\<close>, and puts the connection back into the manager.
\<close>

definition run :: "ChannelManager \<Rightarrow> 'a io \<Rightarrow> IORedis \<Rightarrow> (error + 'a) \<times> ChannelManager" where
  "run m body r = (case body r of (res, r') \<Rightarrow> (res, m\<lparr>redis := Some r'\<rparr>))"

partial_function (option) cleanup_loop ::
  "string \<Rightarrow> nat \<Rightarrow> string list \<Rightarrow> IORedis \<Rightarrow> ((error + string list) \<times> IORedis) option" where
  "cleanup_loop pfx cursor cleaned r =
     (case scan cursor pfx 100 r of
        (Inl e, r1) \<Rightarrow> Some (Inl e, r1)
      | (Inr batch, r1) \<Rightarrow>
          (let elements = snd batch;
               keys = filter (\<lambda>k. k \<noteq> [] \<and> replace_first pfx k \<noteq> []) elements;
               hit = (elements \<noteq> [] \<and> keys \<noteq> []);
               r2 = (if hit then snd (forget (del keys) r1) else r1);
               cleaned' = (if hit then cleaned @ keys else cleaned)
           in if fst batch \<noteq> 0 then cleanup_loop pfx (fst batch) cleaned' r2
              else Some (Inr cleaned', r2)))"

declare cleanup_loop.simps [code]

definition ChannelManager_cleanup ::
  "ChannelManager \<Rightarrow> ((error + unit option) \<times> ChannelManager) option" where
  "ChannelManager_cleanup m =
     (case redis m of
        None \<Rightarrow> Some (Inr None, m)
      | Some r \<Rightarrow>
          (case cleanup_loop (case options (opts m) of None \<Rightarrow> [] | Some p \<Rightarrow> p) 0 [] r of
             None \<Rightarrow> None
           | Some (Inl e, r') \<Rightarrow> Some (Inl e, m\<lparr>redis := Some r'\<rparr>)
           | Some (Inr cleaned, r') \<Rightarrow> Some (Inr None, m\<lparr>redis := Some r'\<rparr>)))"

definition ChannelManager_len ::
  "ChannelManager \<Rightarrow> string \<Rightarrow> (error + nat option) \<times> ChannelManager" where
  "ChannelManager_len m channel =
     (case redis m of
        None \<Rightarrow> (Inr None, m)
      | Some r \<Rightarrow> run m (bnd (hlen (''c#'' @ channel)) (\<lambda>n. ret (Some n))) r)"

definition ChannelManager_add ::
  "ChannelManager \<Rightarrow> string \<Rightarrow> string \<Rightarrow> string \<Rightarrow> (error + unit option) \<times> ChannelManager" where
  "ChannelManager_add m name uid sid =
     (case redis m of
        None \<Rightarrow> (Inr None, m)
      | Some r \<Rightarrow>
          run m
            (bnd (hget (''u#'' @ uid) name) (\<lambda>o'.
             bnd (if truthy o' then srem (''s#'' @ name @ '':'' @ sid) uid else ret ()) (\<lambda>_.
             bnd (hset (''u#'' @ uid) name sid) (\<lambda>_.
             bnd (sadd (''s#'' @ name @ '':'' @ sid) uid) (\<lambda>_.
             bnd (hset (''c#'' @ name) uid sid) (\<lambda>_.
             ret None)))))) r)"

definition ChannelManager_leave ::
  "ChannelManager \<Rightarrow> string \<Rightarrow> string \<Rightarrow> string option \<Rightarrow> (error + unit option) \<times> ChannelManager" where
  "ChannelManager_leave m channel uid sid =
     (case redis m of
        None \<Rightarrow> (Inr None, m)
      | Some r \<Rightarrow>
          run m
            (bnd (if truthy sid then ret sid else hget (''u#'' @ uid) channel) (\<lambda>sid'.
             bnd (forget (hdel (''u#'' @ uid) channel)) (\<lambda>_.
             bnd (forget (hdel (''c#'' @ channel) uid)) (\<lambda>_.
             bnd (case sid' of
                    None \<Rightarrow> ret ()
                  | Some s \<Rightarrow> if s \<noteq> [] then forget (srem (''s#'' @ channel @ '':'' @ s) uid)
                              else ret ()) (\<lambda>_.
             ret None))))) r)"

definition ChannelManager_members ::
  "ChannelManager \<Rightarrow> string \<Rightarrow> string option \<Rightarrow> (error + string list option) \<times> ChannelManager" where
  "ChannelManager_members m channel serverId =
     (case redis m of
        None \<Rightarrow> (Inr None, m)
      | Some r \<Rightarrow>
          run m
            (case serverId of
               None \<Rightarrow> bnd (hkeys (''c#'' @ channel)) (\<lambda>ks. ret (Some ks))
             | Some s \<Rightarrow>
                 if s \<noteq> [] then bnd (smembers (''s#'' @ channel @ '':'' @ s)) (\<lambda>us. ret (Some us))
                 else bnd (hkeys (''c#'' @ channel)) (\<lambda>ks. ret (Some ks))) r)"

text \<open>
  \<open>destroy\<close> calls \<open>leave(channel, uid)\<close> for each member from \<open>forEach\<close> and awaits none of
  these calls. A \<open>leave\<close> without a server runs as far as its \<open>await\<close> of \<open>HGET\<close>: the
  command is sent, and the rest of \<open>leave\<close> waits for the reply. So when \<open>destroy\<close>
  resolves, the store has received \<open>HKEYS\<close> and one \<open>HGET\<close> per member and nothing else,
  and whatever the caller sends next reaches the store before any \<open>HDEL\<close> or \<open>SREM\<close> of
  these \<open>leave\<close>s.

  \<open>Suspended channel uid reply\<close> is such a \<open>leave\<close>, waiting with the reply its \<open>HGET\<close>
  gets. \<open>leave_start\<close> is \<open>leave(channel, uid)\<close> up to that point, \<open>leave_resume\<close> the
  rest of it; a \<open>leave\<close> whose \<open>HGET\<close> is rejected ends there, unobserved. \<open>destroy\<close>
  returns, besides its outcome and the manager, the \<open>leave\<close>s it has left suspended, in
  the order it started them.
\<close>

datatype suspended = Suspended string string "error + string option"

definition leave_start :: "ChannelManager \<Rightarrow> string \<Rightarrow> string \<Rightarrow> ChannelManager \<times> suspended list" where
  "leave_start m channel uid =
     (case redis m of
        None \<Rightarrow> (m, [])
      | Some r \<Rightarrow>
          (case hget (''u#'' @ uid) channel r of
             (reply, r') \<Rightarrow> (m\<lparr>redis := Some r'\<rparr>, [Suspended channel uid reply])))"

fun leave_resume :: "suspended \<Rightarrow> ChannelManager \<Rightarrow> ChannelManager" where
  "leave_resume (Suspended channel uid reply) m =
     (case reply of
        Inl e \<Rightarrow> m
      | Inr sid' \<Rightarrow>
          (case redis m of
             None \<Rightarrow> m
           | Some r \<Rightarrow>
               snd (run m
                 (bnd (forget (hdel (''u#'' @ uid) channel)) (\<lambda>_.
                  bnd (forget (hdel (''c#'' @ channel) uid)) (\<lambda>_.
                  bnd (case sid' of
                         None \<Rightarrow> ret ()
                       | Some s \<Rightarrow> if s \<noteq> [] then forget (srem (''s#'' @ channel @ '':'' @ s) uid)
                                   else ret ()) (\<lambda>_.
                  ret (None :: unit option))))) r)))"

text \<open>The \<open>forEach\<close> of \<open>destroy\<close>: one \<open>leave\<close> started per member, in order.\<close>

fun start_leaves :: "ChannelManager \<Rightarrow> string \<Rightarrow> string list \<Rightarrow> ChannelManager \<times> suspended list" where
  "start_leaves m channel [] = (m, [])"
| "start_leaves m channel (uid # uids) =
     (case leave_start m channel uid of
        (m1, l) \<Rightarrow> (case start_leaves m1 channel uids of (m2, ls) \<Rightarrow> (m2, l @ ls)))"

definition ChannelManager_destroy ::
  "ChannelManager \<Rightarrow> string \<Rightarrow> (error + unit option) \<times> ChannelManager \<times> suspended list" where
  "ChannelManager_destroy m channel =
     (case redis m of
        None \<Rightarrow> (Inr None, m, [])
      | Some r \<Rightarrow>
          (case ChannelManager_members m channel None of
             (Inl e, m1) \<Rightarrow> (Inl e, m1, [])
           | (Inr members, m1) \<Rightarrow>
               (case members of
                  None \<Rightarrow> (Inr None, m1, [])
                | Some uids \<Rightarrow> (Inr None, start_leaves m1 channel uids))))"

definition ChannelManager_ismember ::
  "ChannelManager \<Rightarrow> string \<Rightarrow> string \<Rightarrow> (error + nat option) \<times> ChannelManager" where
  "ChannelManager_ismember m channel uid =
     (case redis m of
        None \<Rightarrow> (Inr None, m)
      | Some r \<Rightarrow> run m (bnd (hexists (''c#'' @ channel) uid) (\<lambda>n. ret (Some n))) r)"

definition ChannelManager_channels ::
  "ChannelManager \<Rightarrow> string \<Rightarrow> (error + string list option) \<times> ChannelManager" where
  "ChannelManager_channels m uid =
     (case redis m of
        None \<Rightarrow> (Inr (Some []), m)
      | Some r \<Rightarrow> run m (bnd (hkeys (''u#'' @ uid)) (\<lambda>ks. ret (Some ks))) r)"

section \<open>ChannelService\<close>

text \<open>
  The host application: \<open>getServersByType\<close> is the cluster directory (\<open>None\<close> when it
  returns nothing), \<open>invoked\<close> the remote calls made through \<open>rpcInvoke\<close>, oldest first,
  each with the id of the server called. \<open>method_name\<close> is the envelope's
  \<open>method\<close>, and \<open>args\<close> is \<open>[route, msg, uids, {isPush}]\<close>.
\<close>

datatype STATE = ST_INITED | ST_STARTED | ST_CLOSED

record 'm params =
  namespace :: string
  service :: string
  method_name :: string
  args :: "string \<times> 'm \<times> string list \<times> bool"

record 'm Application =
  getServersByType :: "string \<Rightarrow> string list option"
  invoked :: "(string \<times> 'm params) list"

definition rpcInvoke :: "string \<Rightarrow> 'm params \<Rightarrow> 'm Application \<Rightarrow> 'm Application" where
  "rpcInvoke ident ps a = a\<lparr>invoked := invoked a @ [(ident, ps)]\<rparr>"

record 'm ChannelService =
  app :: "'m Application"
  cleanOnStartUp_opt :: bool
  manager :: ChannelManager
  state :: STATE

definition new_ChannelService :: "'m Application \<Rightarrow> Options \<Rightarrow> 'm ChannelService" where
  "new_ChannelService a os =
     \<lparr>app = a, cleanOnStartUp_opt = cleanOnStartUp os,
      manager = new_ChannelManager os, state = ST_INITED\<rparr>"

text \<open>
  \<open>cleanOnStartUp_opt\<close> is \<open>this.opts.cleanOnStartUp\<close>; the manager is the
  \<open>ChannelManager\<close> the constructor creates.

  \<open>start\<close>: when the connection becomes ready the state is set and, if asked for, the
  cleanup runs before the callback. The result is \<open>None\<close> when the cleanup never ends;
  otherwise its first component tells whether the callback was invoked.
\<close>

definition ChannelService_start ::
  "keyspace \<Rightarrow> bool \<Rightarrow> 'm ChannelService \<Rightarrow> (bool \<times> 'm ChannelService) option" where
  "ChannelService_start srv ready svc =
     (case ChannelManager_start srv ready (manager svc) of
        (called, m) \<Rightarrow>
          if \<not> called then Some (False, svc\<lparr>manager := m\<rparr>)
          else if cleanOnStartUp_opt svc then
            (case ChannelManager_cleanup m of
               None \<Rightarrow> None
             | Some (Inl e, m') \<Rightarrow> Some (False, svc\<lparr>manager := m', state := ST_STARTED\<rparr>)
             | Some (Inr u, m') \<Rightarrow> Some (True, svc\<lparr>manager := m', state := ST_STARTED\<rparr>))
          else Some (True, svc\<lparr>manager := m, state := ST_STARTED\<rparr>))"

definition ChannelService_stop :: "bool \<Rightarrow> 'm ChannelService \<Rightarrow> 'm ChannelService" where
  "ChannelService_stop force svc =
     svc\<lparr>state := ST_CLOSED, manager := ChannelManager_stop force (manager svc)\<rparr>"

text \<open>
  \<open>via\<close> hands the outcome of a manager method to the caller of the facade, with the
  manager as the method left it.
\<close>

definition via ::
  "'m ChannelService \<Rightarrow> (error + 'a) \<times> ChannelManager \<Rightarrow> (error + 'a) \<times> 'm ChannelService" where
  "via svc res = (fst res, svc\<lparr>manager := snd res\<rparr>)"

text \<open>
  \<open>destroy\<close> of the facade awaits the manager's \<open>destroy\<close> and hands on the \<open>leave\<close>s it
  left suspended; \<open>resume_leaves\<close> lets them run to their end, in order.
\<close>

definition ChannelService_destroy ::
  "'m ChannelService \<Rightarrow> string \<Rightarrow> (error + unit option) \<times> 'm ChannelService \<times> suspended list" where
  "ChannelService_destroy svc name =
     (if state svc \<noteq> ST_STARTED then (Inr None, svc, [])
      else case ChannelManager_destroy (manager svc) name of
             (res, m, begun) \<Rightarrow> (res, svc\<lparr>manager := m\<rparr>, begun))"

definition resume_leaves :: "suspended list \<Rightarrow> 'm ChannelService \<Rightarrow> 'm ChannelService" where
  "resume_leaves ls svc = svc\<lparr>manager := fold leave_resume ls (manager svc)\<rparr>"

definition ChannelService_len ::
  "'m ChannelService \<Rightarrow> string \<Rightarrow> (error + nat option) \<times> 'm ChannelService" where
  "ChannelService_len svc channel =
     (if state svc \<noteq> ST_STARTED then (Inr None, svc)
      else via svc (ChannelManager_len (manager svc) channel))"

definition ChannelService_add ::
  "'m ChannelService \<Rightarrow> string \<Rightarrow> string \<Rightarrow> string \<Rightarrow> (error + unit option) \<times> 'm ChannelService" where
  "ChannelService_add svc channel uid serverId =
     (if state svc \<noteq> ST_STARTED then (Inr None, svc)
      else via svc (ChannelManager_add (manager svc) channel uid serverId))"

definition ChannelService_leave ::
  "'m ChannelService \<Rightarrow> string \<Rightarrow> string \<Rightarrow> string option \<Rightarrow> (error + unit option) \<times> 'm ChannelService" where
  "ChannelService_leave svc channel uid sid =
     (if state svc \<noteq> ST_STARTED then (Inr None, svc)
      else via svc (ChannelManager_leave (manager svc) channel uid sid))"

definition ChannelService_members ::
  "'m ChannelService \<Rightarrow> string \<Rightarrow> string option \<Rightarrow> (error + string list option) \<times> 'm ChannelService" where
  "ChannelService_members svc channel serverId =
     (if state svc \<noteq> ST_STARTED then (Inr None, svc)
      else via svc (ChannelManager_members (manager svc) channel serverId))"

definition ChannelService_ismember ::
  "'m ChannelService \<Rightarrow> string \<Rightarrow> string \<Rightarrow> (error + nat option) \<times> 'm ChannelService" where
  "ChannelService_ismember svc channel uid =
     (if state svc \<noteq> ST_STARTED then (Inr None, svc)
      else via svc (ChannelManager_ismember (manager svc) channel uid))"

definition ChannelService_channels ::
  "'m ChannelService \<Rightarrow> string \<Rightarrow> (error + string list option) \<times> 'm ChannelService" where
  "ChannelService_channels svc uid =
     (if state svc \<noteq> ST_STARTED then (Inr None, svc)
      else via svc (ChannelManager_channels (manager svc) uid))"

text \<open>
  The loop of \<open>pushMessage\<close> over the resolved servers, in the directory's order; \<open>users\<close>
  is the accumulator of the same name.
\<close>

fun push_loop ::
  "string \<Rightarrow> 'm \<Rightarrow> string \<Rightarrow> string list \<Rightarrow> string list \<Rightarrow> 'm ChannelService
     \<Rightarrow> (error + string list option) \<times> 'm ChannelService" where
  "push_loop route msg channelName [] users svc = (Inr (Some users), svc)"
| "push_loop route msg channelName (ident # servers) users svc =
     (case ChannelService_members svc channelName (Some ident) of
        (Inl e, svc1) \<Rightarrow> (Inl e, svc1)
      | (Inr None, svc1) \<Rightarrow> push_loop route msg channelName servers users svc1
      | (Inr (Some uids), svc1) \<Rightarrow>
          if uids \<noteq> [] then
            push_loop route msg channelName servers (users @ uids)
              (svc1\<lparr>app := rpcInvoke ident
                 \<lparr>namespace = ''sys'', service = ''channelRemote'', method_name = ''pushMessage'',
                  args = (route, msg, uids, True)\<rparr> (app svc1)\<rparr>)
          else push_loop route msg channelName servers users svc1)"

definition ChannelService_pushMessage ::
  "'m ChannelService \<Rightarrow> string \<Rightarrow> string \<Rightarrow> 'm \<Rightarrow> string \<Rightarrow> 'o
     \<Rightarrow> (error + string list option) \<times> 'm ChannelService" where
  "ChannelService_pushMessage svc serverType route msg channelName opts' =
     (if state svc \<noteq> ST_STARTED then (Inr None, svc)
      else case getServersByType (app svc) serverType of
             None \<Rightarrow> (Inr None, svc)
           | Some servers \<Rightarrow>
               if servers = [] then (Inr None, svc)
               else push_loop route msg channelName servers [] svc)"

section \<open>Well-formed stores and views of the indexes\<close>

text \<open>
  The registry writes hashes under \<open>u#\<close> and \<open>c#\<close> and sets under \<open>s#\<close>. A store is
  well formed when no key of one family holds a value of the other kind, so that no
  command of the registry is rejected with \<open>WRONGTYPE\<close>. \<open>started\<close> is the state in
  which the facade works: the state is \<open>ST_STARTED\<close> and the connection exists, on a
  well-formed store.
\<close>

definition wf_store :: "IORedis \<Rightarrow> bool" where
  "wf_store r =
     list_all (\<lambda>(k, v). case v of
                 RHash h \<Rightarrow> \<not> prefix (keyPrefix r @ ''s#'') k
               | RSet s \<Rightarrow> \<not> prefix (keyPrefix r @ ''u#'') k \<and> \<not> prefix (keyPrefix r @ ''c#'') k)
       (db r)"

text \<open>
  Views for the proofs: \<open>hash_at\<close> and \<open>set_at\<close> read the hash or set stored under a key
  (empty when there is none), \<open>hash_ok\<close> and \<open>set_ok\<close> say that a hash command or a set
  command on the key is not rejected, and \<open>typed\<close> that this holds for every key of the
  registry. \<open>running\<close>, \<open>hash_in\<close> and \<open>set_in\<close> lift them to the service, and \<open>tick\<close>
  is the service after one more command that changed nothing.
\<close>

definition hash_at :: "IORedis \<Rightarrow> string \<Rightarrow> (string \<times> string) list" where
  "hash_at r key = (case lookup r key of Some (RHash h) \<Rightarrow> h | _ \<Rightarrow> [])"

definition set_at :: "IORedis \<Rightarrow> string \<Rightarrow> string list" where
  "set_at r key = (case lookup r key of Some (RSet s) \<Rightarrow> s | _ \<Rightarrow> [])"

definition hash_ok :: "IORedis \<Rightarrow> string \<Rightarrow> bool" where
  "hash_ok r key = (case lookup r key of Some (RSet s) \<Rightarrow> False | _ \<Rightarrow> True)"

definition set_ok :: "IORedis \<Rightarrow> string \<Rightarrow> bool" where
  "set_ok r key = (case lookup r key of Some (RHash h) \<Rightarrow> False | _ \<Rightarrow> True)"

definition typed :: "IORedis \<Rightarrow> bool" where
  "typed r = (\<forall>x. hash_ok r (''u#'' @ x) \<and> hash_ok r (''c#'' @ x) \<and> set_ok r (''s#'' @ x))"

definition started :: "'m ChannelService \<Rightarrow> bool" where
  "started svc = (state svc = ST_STARTED \<and>
     (case redis (manager svc) of None \<Rightarrow> False | Some r \<Rightarrow> wf_store r))"

definition running :: "'m ChannelService \<Rightarrow> bool" where
  "running svc = (state svc = ST_STARTED \<and>
     (case redis (manager svc) of None \<Rightarrow> False | Some r \<Rightarrow> typed r))"

definition hash_in :: "'m ChannelService \<Rightarrow> string \<Rightarrow> (string \<times> string) list" where
  "hash_in svc key = (case redis (manager svc) of None \<Rightarrow> [] | Some r \<Rightarrow> hash_at r key)"

definition set_in :: "'m ChannelService \<Rightarrow> string \<Rightarrow> string list" where
  "set_in svc key = (case redis (manager svc) of None \<Rightarrow> [] | Some r \<Rightarrow> set_at r key)"

definition tick :: "'m ChannelService \<Rightarrow> 'm ChannelService" where
  "tick svc = svc\<lparr>manager := (manager svc)\<lparr>redis := map_option issue (redis (manager svc))\<rparr>\<rparr>"

text \<open>
  A directory with two servers, and a started service on an empty store under the prefix
  \<open>keyPrefix#\<close>, used as concrete inputs below.
\<close>

definition example_app :: "string Application" where
  "example_app = \<lparr>getServersByType = (\<lambda>t. Some [''srvA'', ''srvB'']), invoked = []\<rparr>"

definition example_service :: "string ChannelService" where
  "example_service =
     \<lparr>app = example_app, cleanOnStartUp_opt = False,
      manager = \<lparr>opts = \<lparr>options = Some ''keyPrefix#'', cleanOnStartUp = False\<rparr>,
                 redis = Some \<lparr>keyPrefix = ''keyPrefix#'', db = [], sent = 0\<rparr>\<rparr>,
      state = ST_STARTED\<rparr>"

text \<open>
  A keyspace left behind by an earlier run under the default prefix: channel \<open>lobby\<close>
  with user \<open>u1\<close> on \<open>srvA\<close>.
\<close>

definition stale_store :: keyspace where
  "stale_store = [(''{POMELO-GLOBALCHANNEL}c#lobby'', RHash [(''u1'', ''srvA'')])]"

text \<open>
  \<open>lobby_service\<close> is the started example after \<open>add(lobby, u1, srvA)\<close>.
\<close>

definition lobby_service :: "string ChannelService" where
  "lobby_service = snd (ChannelService_add example_service ''lobby'' ''u1'' ''srvA'')"

text \<open>
  \<open>member_list\<close> is the per-server member list as the facade reports it,
  \<open>resolved_servers\<close> the servers the directory resolves for a type, and \<open>envelope\<close> the
  remote call \<open>pushMessage\<close> builds.
\<close>

definition member_list :: "'m ChannelService \<Rightarrow> string \<Rightarrow> string \<Rightarrow> string list" where
  "member_list svc channel serverId =
     (case fst (ChannelService_members svc channel (Some serverId)) of
        Inr (Some uids) \<Rightarrow> uids
      | _ \<Rightarrow> [])"

definition resolved_servers :: "'m ChannelService \<Rightarrow> string \<Rightarrow> string list" where
  "resolved_servers svc serverType =
     (case getServersByType (app svc) serverType of None \<Rightarrow> [] | Some servers \<Rightarrow> servers)"

definition envelope :: "string \<Rightarrow> 'm \<Rightarrow> string list \<Rightarrow> 'm params" where
  "envelope route msg uids =
     \<lparr>namespace = ''sys'', service = ''channelRemote'', method_name = ''pushMessage'',
      args = (route, msg, uids, True)\<rparr>"

text \<open>
  \<open>populate\<close> joins the users of \<open>joins\<close>, each with its server, to one channel, in
  order. \<open>lobby_of_three\<close> is the started example after \<open>u1\<close> and \<open>u2\<close> joined \<open>lobby\<close> on
  \<open>srvA\<close> and \<open>u3\<close> on \<open>srvB\<close>.
\<close>

definition populate :: "'m ChannelService \<Rightarrow> string \<Rightarrow> (string \<times> string) list \<Rightarrow> 'm ChannelService" where
  "populate svc c joins = fold (\<lambda>(u, s) svc'. snd (ChannelService_add svc' c u s)) joins svc"

definition lobby_of_three :: "string ChannelService" where
  "lobby_of_three =
     populate example_service ''lobby'' [(''u1'', ''srvA''), (''u2'', ''srvA''), (''u3'', ''srvB'')]"

text \<open>
  Two connections see the \<open>same_store\<close> when they differ at most in the count of
  commands sent.
\<close>

definition same_store :: "IORedis \<Rightarrow> IORedis \<Rightarrow> bool" where
  "same_store r r' = (db r' = db r \<and> keyPrefix r' = keyPrefix r)"

section \<open>Commands on well-typed keys\<close>

lemma wf_store_typed: "wf_store r \<Longrightarrow> typed r"
  unfolding wf_store_def typed_def hash_ok_def set_ok_def lookup_def
  by (auto simp: list_all_iff split: option.splits rvalue.splits dest!: map_of_SomeD)

lemma lookup_issue [simp]: "lookup (issue r) k = lookup r k"
  by (simp add: lookup_def issue_def)

lemma lookup_put [simp]:
  "lookup (put key v r) k =
     (if k = key then (if v = RHash [] \<or> v = RSet [] then None else Some v) else lookup r k)"
  by (simp add: lookup_def put_def update_conv' delete_conv')

lemma keyPrefix_issue [simp]: "keyPrefix (issue r) = keyPrefix r"
  by (simp add: issue_def)

lemma keyPrefix_put [simp]: "keyPrefix (put key v r) = keyPrefix r"
  by (simp add: put_def)

lemma hash_at_issue [simp]: "hash_at (issue r) k = hash_at r k"
  by (simp add: hash_at_def)

lemma set_at_issue [simp]: "set_at (issue r) k = set_at r k"
  by (simp add: set_at_def)

lemma hash_ok_issue [simp]: "hash_ok (issue r) k = hash_ok r k"
  by (simp add: hash_ok_def)

lemma set_ok_issue [simp]: "set_ok (issue r) k = set_ok r k"
  by (simp add: set_ok_def)

lemma hash_at_put_hash [simp]:
  "hash_at (put key (RHash h) r) k = (if k = key then h else hash_at r k)"
  by (simp add: hash_at_def)

lemma hash_at_put_set [simp]:
  "hash_at (put key (RSet s) r) k = (if k = key then [] else hash_at r k)"
  by (simp add: hash_at_def)

lemma set_at_put_set [simp]:
  "set_at (put key (RSet s) r) k = (if k = key then s else set_at r k)"
  by (simp add: set_at_def)

lemma set_at_put_hash [simp]:
  "set_at (put key (RHash h) r) k = (if k = key then [] else set_at r k)"
  by (simp add: set_at_def)

lemma hash_ok_put_hash [simp]:
  "hash_ok (put key (RHash h) r) k = (k = key \<or> hash_ok r k)"
  by (simp add: hash_ok_def)

lemma set_ok_put_set [simp]:
  "set_ok (put key (RSet s) r) k = (k = key \<or> set_ok r k)"
  by (simp add: set_ok_def)

lemma hash_ok_put_set [simp]:
  "hash_ok (put key (RSet s) r) k = (if k = key then s = [] else hash_ok r k)"
  by (simp add: hash_ok_def)

lemma set_ok_put_hash [simp]:
  "set_ok (put key (RHash h) r) k = (if k = key then h = [] else set_ok r k)"
  by (simp add: set_ok_def)

lemma as_hash_ok: "hash_ok r key \<Longrightarrow> as_hash (lookup r key) = Inr (hash_at r key)"
  by (simp add: hash_ok_def as_hash_def hash_at_def split: option.splits rvalue.splits)

lemma as_set_ok: "set_ok r key \<Longrightarrow> as_set (lookup r key) = Inr (set_at r key)"
  by (simp add: set_ok_def as_set_def set_at_def split: option.splits rvalue.splits)

lemma hget_ok [simp]: "hash_ok r key \<Longrightarrow> hget key f r = (Inr (map_of (hash_at r key) f), issue r)"
  by (simp add: hget_def as_hash_ok)

lemma hset_ok [simp]: "hash_ok r key \<Longrightarrow>
   hset key f v r = (Inr (), issue (put key (RHash (AList.update f v (hash_at r key))) r))"
  by (simp add: hset_def as_hash_ok)

lemma hdel_ok [simp]: "hash_ok r key \<Longrightarrow>
   hdel key f r = (Inr (), issue (put key (RHash (AList.delete f (hash_at r key))) r))"
  by (simp add: hdel_def as_hash_ok)

lemma hexists_ok [simp]: "hash_ok r key \<Longrightarrow>
   hexists key f r = (Inr (if map_of (hash_at r key) f = None then 0 else 1), issue r)"
  by (simp add: hexists_def as_hash_ok)

lemma hkeys_ok [simp]: "hash_ok r key \<Longrightarrow> hkeys key r = (Inr (map fst (hash_at r key)), issue r)"
  by (simp add: hkeys_def as_hash_ok)

lemma hlen_ok [simp]: "hash_ok r key \<Longrightarrow> hlen key r = (Inr (length (hash_at r key)), issue r)"
  by (simp add: hlen_def as_hash_ok)

lemma sadd_ok [simp]: "set_ok r key \<Longrightarrow>
   sadd key m r = (Inr (), issue (put key (RSet (List.insert m (set_at r key))) r))"
  by (simp add: sadd_def as_set_ok)

lemma srem_ok [simp]: "set_ok r key \<Longrightarrow>
   srem key m r = (Inr (), issue (put key (RSet (removeAll m (set_at r key))) r))"
  by (simp add: srem_def as_set_ok)

lemma smembers_ok [simp]: "set_ok r key \<Longrightarrow> smembers key r = (Inr (set_at r key), issue r)"
  by (simp add: smembers_def as_set_ok)

lemma typed_issue [simp]: "typed (issue r) = typed r"
  by (simp add: typed_def)

lemma typed_put_u [simp]: "typed r \<Longrightarrow> typed (put (CHR ''u'' # CHR ''#'' # x) (RHash h) r)"
  by (simp add: typed_def)

lemma typed_put_c [simp]: "typed r \<Longrightarrow> typed (put (CHR ''c'' # CHR ''#'' # x) (RHash h) r)"
  by (simp add: typed_def)

lemma typed_put_s [simp]: "typed r \<Longrightarrow> typed (put (CHR ''s'' # CHR ''#'' # x) (RSet s) r)"
  by (simp add: typed_def)

lemma typedD [simp]:
  "typed r \<Longrightarrow> hash_ok r (CHR ''u'' # CHR ''#'' # x)"
  "typed r \<Longrightarrow> hash_ok r (CHR ''c'' # CHR ''#'' # x)"
  "typed r \<Longrightarrow> set_ok r (CHR ''s'' # CHR ''#'' # x)"
  by (simp_all add: typed_def)

lemma hash_ok_set_at: "hash_ok r k \<Longrightarrow> set_at r k = []"
  by (simp add: hash_ok_def set_at_def split: option.splits rvalue.splits)

lemma set_ok_hash_at: "set_ok r k \<Longrightarrow> hash_at r k = []"
  by (simp add: set_ok_def hash_at_def split: option.splits rvalue.splits)

lemma typed_empty [simp]:
  "typed r \<Longrightarrow> set_at r (CHR ''u'' # CHR ''#'' # x) = []"
  "typed r \<Longrightarrow> set_at r (CHR ''c'' # CHR ''#'' # x) = []"
  "typed r \<Longrightarrow> hash_at r (CHR ''s'' # CHR ''#'' # x) = []"
  by (simp_all add: hash_ok_set_at set_ok_hash_at)

lemmas io_defs = bnd_def ret_def forget_def run_def via_def truthy_def

lemma started_running: "started svc \<Longrightarrow> running svc"
  by (auto simp: started_def running_def wf_store_typed split: option.splits)

lemma running_tick [simp]: "running (tick svc) = running svc"
  by (auto simp: running_def tick_def split: option.splits)

lemma hash_in_tick [simp]: "hash_in (tick svc) k = hash_in svc k"
  by (auto simp: hash_in_def tick_def split: option.splits)

lemma set_in_tick [simp]: "set_in (tick svc) k = set_in svc k"
  by (auto simp: set_in_def tick_def split: option.splits)

lemma state_tick [simp]: "state (tick svc) = state svc"
  by (simp add: tick_def)

lemma app_tick [simp]: "app (tick svc) = app svc"
  by (simp add: tick_def)

lemma ismember_eff:
  "running svc \<Longrightarrow> ChannelService_ismember svc c u =
     (Inr (Some (if map_of (hash_in svc (''c#'' @ c)) u = None then 0 else 1)), tick svc)"
  by (auto simp: running_def hash_in_def tick_def ChannelService_ismember_def ChannelManager_ismember_def io_defs
       split: option.splits)

lemma len_eff:
  "running svc \<Longrightarrow> ChannelService_len svc c = (Inr (Some (length (hash_in svc (''c#'' @ c)))), tick svc)"
  by (auto simp: running_def hash_in_def tick_def ChannelService_len_def ChannelManager_len_def io_defs
       split: option.splits)

lemma channels_eff:
  "running svc \<Longrightarrow> ChannelService_channels svc u = (Inr (Some (map fst (hash_in svc (''u#'' @ u)))), tick svc)"
  by (auto simp: running_def hash_in_def tick_def ChannelService_channels_def ChannelManager_channels_def io_defs
       split: option.splits)

lemma members_eff:
  "running svc \<Longrightarrow> ChannelService_members svc c sid =
     (Inr (Some (if truthy sid then set_in svc (''s#'' @ c @ '':'' @ the sid) else map fst (hash_in svc (''c#'' @ c)))),
      tick svc)"
  by (auto simp: running_def hash_in_def set_in_def tick_def ChannelService_members_def ChannelManager_members_def io_defs
       split: option.splits)

lemma add_res: "running svc \<Longrightarrow> fst (ChannelService_add svc c u s) = Inr None"
  by (auto simp: running_def ChannelService_add_def ChannelManager_add_def io_defs split: option.splits)

lemma add_running: "running svc \<Longrightarrow> running (snd (ChannelService_add svc c u s))"
  by (auto simp: running_def ChannelService_add_def ChannelManager_add_def io_defs split: option.splits)

lemma add_hash_in: "running svc \<Longrightarrow> hash_in (snd (ChannelService_add svc c u s)) k =
    (if k = ''c#'' @ c then AList.update u s (hash_in svc k)
     else if k = ''u#'' @ u then AList.update c s (hash_in svc k) else hash_in svc k)"
  by (auto simp: running_def hash_in_def ChannelService_add_def ChannelManager_add_def io_defs split: option.splits)

lemma add_set_in: "running svc \<Longrightarrow> set (set_in (snd (ChannelService_add svc c u s)) k) =
    (if k = ''s#'' @ c @ '':'' @ s then insert u (set (set_in svc k)) else set (set_in svc k))"
  by (auto simp: running_def set_in_def ChannelService_add_def ChannelManager_add_def io_defs split: option.splits)

lemma leave_res: "running svc \<Longrightarrow> fst (ChannelService_leave svc c u sid) = Inr None"
  by (auto simp: running_def ChannelService_leave_def ChannelManager_leave_def io_defs split: option.splits)

lemma leave_running: "running svc \<Longrightarrow> running (snd (ChannelService_leave svc c u sid))"
  by (auto simp: running_def ChannelService_leave_def ChannelManager_leave_def io_defs split: option.splits)

lemma leave_hash_in: "running svc \<Longrightarrow> hash_in (snd (ChannelService_leave svc c u sid)) k =
    (if k = ''u#'' @ u then AList.delete c (hash_in svc k)
     else if k = ''c#'' @ c then AList.delete u (hash_in svc k) else hash_in svc k)"
  by (auto simp: running_def hash_in_def ChannelService_leave_def ChannelManager_leave_def io_defs split: option.splits)

lemma leave_set_in: "running svc \<Longrightarrow> set_in (snd (ChannelService_leave svc c u sid)) k =
    (case (if truthy sid then sid else map_of (hash_in svc (''u#'' @ u)) c) of
       None \<Rightarrow> set_in svc k
     | Some s \<Rightarrow> if s \<noteq> [] \<and> k = ''s#'' @ c @ '':'' @ s then removeAll u (set_in svc k) else set_in svc k)"
  by (auto simp: running_def set_in_def hash_in_def ChannelService_leave_def ChannelManager_leave_def io_defs split: option.splits)

lemma leave_resolves_server:
  assumes "running svc" and "map_of (hash_in svc (''u#'' @ u)) c = Some s" and "s \<noteq> []"
  shows "hash_in (snd (ChannelService_leave svc c u None)) k =
           hash_in (snd (ChannelService_leave svc c u (Some s))) k \<and>
         set_in (snd (ChannelService_leave svc c u None)) k =
           set_in (snd (ChannelService_leave svc c u (Some s))) k"
  using assms(2,3) by (simp add: leave_hash_in [OF assms(1)] leave_set_in [OF assms(1)] truthy_def)

section \<open>Joining and leaving\<close>

text \<open>
  C2. In the started state, after \<open>add(c, u, s)\<close> the query \<open>ismember(c, u)\<close> answers with
  the store's affirmative reply \<open>1\<close>, and \<open>members(c, s)\<close> lists \<open>u\<close>.
\<close>

theorem add_then_member:
  assumes "started svc"
  shows "fst (ChannelService_ismember (snd (ChannelService_add svc c u s)) c u) = Inr (Some 1) \<and>
         (\<exists>uids. fst (ChannelService_members (snd (ChannelService_add svc c u s)) c (Some s)) = Inr (Some uids)
                  \<and> u \<in> set uids)"
proof -
  let ?svc' = "snd (ChannelService_add svc c u s)"
  have r: "running svc" using assms by (rule started_running)
  then have r': "running ?svc'" by (rule add_running)
  have 1: "fst (ChannelService_ismember ?svc' c u) = Inr (Some 1)"
    by (simp add: ismember_eff [OF r'] add_hash_in [OF r] update_conv')
  have "u \<in> set (set_in ?svc' (''s#'' @ c @ '':'' @ s))"
    by (simp add: add_set_in [OF r])
  moreover have "u \<in> set (map fst (hash_in ?svc' (''c#'' @ c)))"
    by (simp add: add_hash_in [OF r] dom_update)
  moreover have "fst (ChannelService_members ?svc' c (Some s)) =
      Inr (Some (if s \<noteq> [] then set_in ?svc' (''s#'' @ c @ '':'' @ s)
                 else map fst (hash_in ?svc' (''c#'' @ c))))"
    using members_eff [OF r', of c "Some s"] by (simp add: truthy_def)
  ultimately have 2: "\<exists>uids. fst (ChannelService_members ?svc' c (Some s)) = Inr (Some uids) \<and> u \<in> set uids"
    by (simp split: if_splits)
  from 1 2 show ?thesis by simp
qed

theorem add_then_member_witness:
  "started example_service \<and>
   fst (ChannelService_ismember (snd (ChannelService_add example_service ''lobby'' ''u1'' ''srvA'')) ''lobby'' ''u1'')
     = Inr (Some 1) \<and>
   (\<exists>uids. fst (ChannelService_members (snd (ChannelService_add example_service ''lobby'' ''u1'' ''srvA''))
               ''lobby'' (Some ''srvA'')) = Inr (Some uids) \<and> ''u1'' \<in> set uids)"
proof -
  have h: "started example_service"
    by (simp add: started_def example_service_def wf_store_def)
  show ?thesis
    using h add_then_member [OF h, of "''lobby''" "''u1''" "''srvA''"] by simp
qed

text \<open>
  C3. In the started state, after \<open>add(c, u, s)\<close> and then \<open>leave(c, u)\<close> without a server,
  \<open>leave\<close> resolves, \<open>ismember(c, u)\<close> answers \<open>0\<close>, \<open>members(c, s)\<close> no longer lists \<open>u\<close>
  and \<open>channels(u)\<close> no longer lists \<open>c\<close>. The server is the one \<open>leave\<close> reads from the
  user's hash \<open>u#u\<close>: by \<open>leave_resolves_server\<close> the indexes end up as after a \<open>leave\<close>
  that names the recorded server.
\<close>

theorem add_then_leave:
  assumes "started svc"
  shows "fst (ChannelService_leave (snd (ChannelService_add svc c u s)) c u None) = Inr None \<and>
         fst (ChannelService_ismember
                (snd (ChannelService_leave (snd (ChannelService_add svc c u s)) c u None)) c u)
           = Inr (Some 0) \<and>
         (\<exists>uids. fst (ChannelService_members
                        (snd (ChannelService_leave (snd (ChannelService_add svc c u s)) c u None))
                        c (Some s)) = Inr (Some uids) \<and> u \<notin> set uids) \<and>
         (\<exists>cs. fst (ChannelService_channels
                      (snd (ChannelService_leave (snd (ChannelService_add svc c u s)) c u None)) u)
                  = Inr (Some cs) \<and> c \<notin> set cs)"
proof -
  let ?svc1 = "snd (ChannelService_add svc c u s)"
  let ?svc2 = "snd (ChannelService_leave ?svc1 c u None)"
  have r: "running svc" using assms by (rule started_running)
  then have r1: "running ?svc1" by (rule add_running)
  then have r2: "running ?svc2" by (rule leave_running)
  have recorded: "map_of (hash_in ?svc1 (''u#'' @ u)) c = Some s"
    by (simp add: add_hash_in [OF r] update_conv')
  have 0: "fst (ChannelService_leave ?svc1 c u None) = Inr None"
    by (rule leave_res [OF r1])
  have 1: "fst (ChannelService_ismember ?svc2 c u) = Inr (Some 0)"
    by (simp add: ismember_eff [OF r2] leave_hash_in [OF r1] delete_conv')
  have keys: "u \<notin> set (map fst (hash_in ?svc2 (''c#'' @ c)))"
    by (simp add: leave_hash_in [OF r1] delete_keys)
  have sets: "s \<noteq> [] \<Longrightarrow> u \<notin> set (set_in ?svc2 (''s#'' @ c @ '':'' @ s))"
    using recorded by (simp add: leave_set_in [OF r1] truthy_def)
  have "fst (ChannelService_members ?svc2 c (Some s)) =
      Inr (Some (if s \<noteq> [] then set_in ?svc2 (''s#'' @ c @ '':'' @ s)
                 else map fst (hash_in ?svc2 (''c#'' @ c))))"
    using members_eff [OF r2, of c "Some s"] by (simp add: truthy_def)
  with keys sets
  have 2: "\<exists>uids. fst (ChannelService_members ?svc2 c (Some s)) = Inr (Some uids) \<and> u \<notin> set uids"
    by (simp split: if_splits)
  have 3: "\<exists>cs. fst (ChannelService_channels ?svc2 u) = Inr (Some cs) \<and> c \<notin> set cs"
    by (simp add: channels_eff [OF r2] leave_hash_in [OF r1] delete_keys)
  from 0 1 2 3 show ?thesis by simp
qed

theorem add_then_leave_witness:
  "started example_service \<and>
   fst (ChannelService_ismember
          (snd (ChannelService_leave (snd (ChannelService_add example_service ''lobby'' ''u1'' ''srvA''))
                  ''lobby'' ''u1'' None)) ''lobby'' ''u1'') = Inr (Some 0)"
proof -
  have h: "started example_service"
    by (simp add: started_def example_service_def wf_store_def)
  show ?thesis
    using h add_then_leave [OF h, of "''lobby''" "''u1''" "''srvA''"] by simp
qed

section \<open>What \<open>add\<close> leaves alone\<close>

text \<open>
  C10, as stated, fails: the key of the per-server set is \<open>s#\<close> followed by the channel, a
  colon and the server, so channel \<open>a\<close> on server \<open>b:x\<close> and channel \<open>a:b\<close> on server \<open>x\<close>
  share the set \<open>s#a:b:x\<close>. Adding \<open>u1\<close> to the first makes \<open>u1\<close> appear in
  \<open>members(''a:b'', ''x'')\<close>.
\<close>

theorem add_frame_counterexample:
  "fst (ChannelService_members example_service ''a:b'' (Some ''x'')) = Inr (Some []) \<and>
   fst (ChannelService_members (snd (ChannelService_add example_service ''a'' ''u1'' ''b:x''))
          ''a:b'' (Some ''x'')) = Inr (Some [''u1''])"
  by code_simp

text \<open>
  Two channel names without a colon never share a per-server set.
\<close>

lemma colon_free_keys:
  assumes "CHR '':'' \<notin> set c" and "CHR '':'' \<notin> set c'" and "c' @ '':'' @ s' = c @ '':'' @ s"
  shows "c' = c \<and> s' = s"
proof -
  have "takeWhile (\<lambda>x. x \<noteq> CHR '':'') (c' @ '':'' @ s') = c'"
    using assms(2) by (auto simp: takeWhile_tail)
  moreover have "takeWhile (\<lambda>x. x \<noteq> CHR '':'') (c @ '':'' @ s) = c"
    using assms(1) by (auto simp: takeWhile_tail)
  ultimately have "c' = c" using assms(3) by simp
  with assms(3) show ?thesis by simp
qed

text \<open>
  C10, amended. In the started state, for every pair \<open>(c', u')\<close> other than \<open>(c, u)\<close>,
  \<open>add(c, u, s)\<close> leaves the answer of \<open>ismember(c', u')\<close> unchanged, and for every server
  \<open>s'\<close> it leaves the presence of \<open>u'\<close> in \<open>members(c', s')\<close> unchanged provided \<open>u'\<close> is
  another user than \<open>u\<close> or \<open>c':s'\<close> and \<open>c:s\<close> are different strings.
\<close>

theorem add_frame:
  assumes "started svc" and "(c', u') \<noteq> (c, u)"
    and "u' \<noteq> u \<or> c' @ '':'' @ s' \<noteq> c @ '':'' @ s"
  shows "fst (ChannelService_ismember (snd (ChannelService_add svc c u s)) c' u')
           = fst (ChannelService_ismember svc c' u') \<and>
         (\<exists>before after.
            fst (ChannelService_members svc c' (Some s')) = Inr (Some before) \<and>
            fst (ChannelService_members (snd (ChannelService_add svc c u s)) c' (Some s')) = Inr (Some after) \<and>
            (u' \<in> set after \<longleftrightarrow> u' \<in> set before))"
proof -
  let ?svc1 = "snd (ChannelService_add svc c u s)"
  have r: "running svc" using assms(1) by (rule started_running)
  then have r1: "running ?svc1" by (rule add_running)
  have fld: "map_of (hash_in ?svc1 (''c#'' @ c')) u' = map_of (hash_in svc (''c#'' @ c')) u'"
    using assms(2) by (auto simp: add_hash_in [OF r] update_conv')
  have 1: "fst (ChannelService_ismember ?svc1 c' u') = fst (ChannelService_ismember svc c' u')"
    using fld by (simp add: ismember_eff [OF r1] ismember_eff [OF r])
  have keys: "u' \<in> set (map fst (hash_in ?svc1 (''c#'' @ c'))) \<longleftrightarrow>
              u' \<in> set (map fst (hash_in svc (''c#'' @ c')))"
  proof -
    have "\<And>al :: (string \<times> string) list. u' \<in> set (map fst al) \<longleftrightarrow> map_of al u' \<noteq> None"
      by (simp add: map_of_eq_None_iff)
    then show ?thesis by (simp only: fld)
  qed
  have sets: "u' \<in> set (set_in ?svc1 (''s#'' @ c' @ '':'' @ s')) \<longleftrightarrow>
              u' \<in> set (set_in svc (''s#'' @ c' @ '':'' @ s'))"
    using assms(3) by (auto simp: add_set_in [OF r])
  have a: "fst (ChannelService_members ?svc1 c' (Some s')) =
      Inr (Some (if s' \<noteq> [] then set_in ?svc1 (''s#'' @ c' @ '':'' @ s')
                 else map fst (hash_in ?svc1 (''c#'' @ c'))))"
    using members_eff [OF r1, of c' "Some s'"] by (simp add: truthy_def)
  have b: "fst (ChannelService_members svc c' (Some s')) =
      Inr (Some (if s' \<noteq> [] then set_in svc (''s#'' @ c' @ '':'' @ s')
                 else map fst (hash_in svc (''c#'' @ c'))))"
    using members_eff [OF r, of c' "Some s'"] by (simp add: truthy_def)
  from keys sets have 2: "\<exists>before after.
            fst (ChannelService_members svc c' (Some s')) = Inr (Some before) \<and>
            fst (ChannelService_members ?svc1 c' (Some s')) = Inr (Some after) \<and>
            (u' \<in> set after \<longleftrightarrow> u' \<in> set before)"
    unfolding a b by (simp split: if_splits)
  from 1 2 show ?thesis by simp
qed

theorem add_frame_witness:
  "started example_service \<and> (''lobby'', ''u2'') \<noteq> (''lobby'', ''u1'') \<and>
   fst (ChannelService_ismember (snd (ChannelService_add example_service ''lobby'' ''u1'' ''srvA''))
          ''lobby'' ''u2'') = fst (ChannelService_ismember example_service ''lobby'' ''u2'')"
proof -
  have h: "started example_service"
    by (simp add: started_def example_service_def wf_store_def)
  have d: "(''lobby'', ''u2'') \<noteq> (''lobby'', ''u1'')" by simp
  have k: "''u2'' \<noteq> ''u1'' \<or> ''lobby'' @ '':'' @ ''srvA'' \<noteq> ''lobby'' @ '':'' @ ''srvA''" by simp
  show ?thesis
    using h d add_frame [OF h d k] by simp
qed

section \<open>Moving a user to another server\<close>

text \<open>
  C1. \<open>add\<close> reads the server recorded for the user, \<open>o\<close>, and then removes the user from
  the set of the new server \<open>sid\<close>, not from the set of \<open>o\<close>. After \<open>add(lobby, u1, srvA)\<close>
  and \<open>add(lobby, u1, srvB)\<close> on an empty store, \<open>members(lobby, srvA)\<close> still lists \<open>u1\<close>.
\<close>

theorem add_move_keeps_old_server:
  "fst (ChannelService_members
          (snd (ChannelService_add (snd (ChannelService_add example_service ''lobby'' ''u1'' ''srvA''))
                  ''lobby'' ''u1'' ''srvB''))
          ''lobby'' (Some ''srvA'')) = Inr (Some [''u1''])"
  by code_simp

text \<open>
  The same holds from every started state and for all servers \<open>s1 \<noteq> s2\<close>, \<open>s1\<close> not
  empty: after the two \<open>add\<close>s the user is still listed under \<open>s1\<close>.
\<close>

lemma add_twice_lists_both:
  assumes "started svc" and "s1 \<noteq> []" and "s1 \<noteq> s2"
  shows "\<exists>uids. fst (ChannelService_members
                       (snd (ChannelService_add (snd (ChannelService_add svc c u s1)) c u s2))
                       c (Some s1)) = Inr (Some uids) \<and> u \<in> set uids"
proof -
  let ?svc1 = "snd (ChannelService_add svc c u s1)"
  let ?svc2 = "snd (ChannelService_add ?svc1 c u s2)"
  have r: "running svc" using assms(1) by (rule started_running)
  then have r1: "running ?svc1" by (rule add_running)
  then have r2: "running ?svc2" by (rule add_running)
  have "u \<in> set (set_in ?svc2 (''s#'' @ c @ '':'' @ s1))"
    using assms(3) by (simp add: add_set_in [OF r1] add_set_in [OF r])
  then show ?thesis
    using assms(2) members_eff [OF r2, of c "Some s1"] by (simp add: truthy_def)
qed

section \<open>The gate on the service state\<close>

text \<open>
  C5. While the state is not \<open>ST_STARTED\<close> (before \<open>start\<close>, or after \<open>stop\<close>), each of
  \<open>add\<close>, \<open>leave\<close>, \<open>destroy\<close>, \<open>len\<close>, \<open>members\<close>, \<open>ismember\<close>, \<open>channels\<close> and
  \<open>pushMessage\<close> resolves with \<open>undefined\<close> and returns the service as it was: the same
  store, the same count of commands sent (so nothing was read or written), and no remote
  call made.
\<close>

theorem not_started_gate:
  assumes "state svc \<noteq> ST_STARTED"
  shows "ChannelService_add svc c u s = (Inr None, svc) \<and>
         ChannelService_leave svc c u sid = (Inr None, svc) \<and>
         ChannelService_destroy svc c = (Inr None, svc, []) \<and>
         ChannelService_len svc c = (Inr None, svc) \<and>
         ChannelService_members svc c sid = (Inr None, svc) \<and>
         ChannelService_ismember svc c u = (Inr None, svc) \<and>
         ChannelService_channels svc u = (Inr None, svc) \<and>
         ChannelService_pushMessage svc serverType route msg c opts' = (Inr None, svc)"
  using assms
  by (simp add: ChannelService_add_def ChannelService_leave_def ChannelService_destroy_def
        ChannelService_len_def ChannelService_members_def ChannelService_ismember_def
        ChannelService_channels_def ChannelService_pushMessage_def)

theorem not_started_gate_witness:
  "state (new_ChannelService example_app \<lparr>options = None, cleanOnStartUp = False\<rparr>) \<noteq> ST_STARTED \<and>
   ChannelService_add (new_ChannelService example_app \<lparr>options = None, cleanOnStartUp = False\<rparr>)
     ''lobby'' ''u1'' ''srvA'' =
   (Inr None, new_ChannelService example_app \<lparr>options = None, cleanOnStartUp = False\<rparr>)"
proof -
  have h: "state (new_ChannelService example_app \<lparr>options = None, cleanOnStartUp = False\<rparr>) \<noteq> ST_STARTED"
    by (simp add: new_ChannelService_def)
  from not_started_gate [OF h]
  have "ChannelService_add (new_ChannelService example_app \<lparr>options = None, cleanOnStartUp = False\<rparr>)
          ''lobby'' ''u1'' ''srvA'' =
        (Inr None, new_ChannelService example_app \<lparr>options = None, cleanOnStartUp = False\<rparr>)"
    by (rule conjunct1)
  with h show ?thesis by simp
qed

section \<open>The life cycle\<close>

lemma length_delete_le: "length (AList.delete k al) \<le> length al"
  by (simp add: AList.delete_eq)

lemma length_fold_delete_le: "length (fold (\<lambda>k. AList.delete (f k)) ks al) \<le> length al"
proof (induction ks arbitrary: al)
  case Nil
  show ?case by simp
next
  case (Cons k ks)
  have "length (fold (\<lambda>k. AList.delete (f k)) ks (AList.delete (f k) al)) \<le> length (AList.delete (f k) al)"
    by (rule Cons.IH)
  also have "\<dots> \<le> length al" by (rule length_delete_le)
  finally show ?case by simp
qed

lemma cleanup_loop_total: "\<exists>res. cleanup_loop pfx cursor cleaned r = Some res"
proof (induction "length (db r) - cursor" arbitrary: r cursor cleaned rule: less_induct)
  case less
  let ?elements = "filter (prefix pfx) (take 100 (drop cursor (map fst (db r))))"
  let ?keys = "filter (\<lambda>k. k \<noteq> [] \<and> replace_first pfx k \<noteq> []) ?elements"
  let ?hit = "?elements \<noteq> [] \<and> ?keys \<noteq> []"
  let ?r2 = "if ?hit then snd (forget (del ?keys) (issue r)) else issue r"
  let ?cleaned = "if ?hit then cleaned @ ?keys else cleaned"
  show ?case
  proof (cases "cursor + 100 < length (db r)")
    case False
    then show ?thesis
      by (subst cleanup_loop.simps) (simp add: scan_def Let_def)
  next
    case True
    have le: "length (db ?r2) \<le> length (db r)"
      by (simp add: forget_def del_def issue_def length_fold_delete_le)
    with True have "length (db ?r2) - (cursor + 100) < length (db r) - cursor"
      by arith
    from less [OF this] obtain res where
      "cleanup_loop pfx (cursor + 100) ?cleaned ?r2 = Some res" by blast
    with True show ?thesis
      by (subst cleanup_loop.simps) (simp add: scan_def Let_def)
  qed
qed

lemma state_via [simp]: "state (snd (via svc res)) = state svc"
  by (simp add: via_def)

lemma state_push_loop: "state (snd (push_loop route msg ch servers users svc)) = state svc"
proof (induction servers arbitrary: users svc)
  case Nil
  show ?case by simp
next
  case (Cons ident servers)
  have m: "state (snd (ChannelService_members svc ch (Some ident))) = state svc"
    by (simp add: ChannelService_members_def)
  show ?case
    using m by (auto simp: Cons.IH split: prod.splits sum.splits option.splits)
qed

text \<open>
  C7, as stated, fails: \<open>start\<close> sets the state without looking at it, so a service that
  was stopped is back in \<open>ST_STARTED\<close> after the next \<open>start\<close>. The example service is
  created, started, stopped and started again.
\<close>

theorem restart_counterexample:
  "state (new_ChannelService example_app \<lparr>options = Some ''keyPrefix#'', cleanOnStartUp = False\<rparr>)
     = ST_INITED \<and>
   ChannelService_start [] True
     (new_ChannelService example_app \<lparr>options = Some ''keyPrefix#'', cleanOnStartUp = False\<rparr>)
     = Some (True, example_service) \<and>
   state example_service = ST_STARTED \<and>
   state (ChannelService_stop False example_service) = ST_CLOSED \<and>
   ChannelService_start [] True (ChannelService_stop False example_service) = Some (True, example_service)"
  by (simp add: ChannelService_stop_def ChannelManager_stop_def ChannelService_start_def
        ChannelManager_start_def example_service_def new_ChannelService_def new_ChannelManager_def)

text \<open>
  C7, amended. \<open>start\<close>, once the connection is ready, completes and leaves the service
  in \<open>ST_STARTED\<close> whatever the state was (so from \<open>ST_INITED\<close>, and also from
  \<open>ST_CLOSED\<close>); \<open>stop\<close> leaves it in \<open>ST_CLOSED\<close>; no other operation of the facade
  changes the state, so a closed service stays closed until \<open>start\<close> is called again.
\<close>

theorem lifecycle:
  "(\<exists>called svc'. ChannelService_start srv True svc = Some (called, svc') \<and> state svc' = ST_STARTED) \<and>
   state (ChannelService_stop force svc) = ST_CLOSED \<and>
   state (snd (ChannelService_add svc c u s)) = state svc \<and>
   state (snd (ChannelService_leave svc c u sid)) = state svc \<and>
   state (fst (snd (ChannelService_destroy svc c))) = state svc \<and>
   state (snd (ChannelService_len svc c)) = state svc \<and>
   state (snd (ChannelService_members svc c sid)) = state svc \<and>
   state (snd (ChannelService_ismember svc c u)) = state svc \<and>
   state (snd (ChannelService_channels svc u)) = state svc \<and>
   state (snd (ChannelService_pushMessage svc serverType route msg c opts')) = state svc"
proof -
  have 1: "\<exists>called svc'. ChannelService_start srv True svc = Some (called, svc') \<and> state svc' = ST_STARTED"
  proof (cases "cleanOnStartUp_opt svc")
    case False
    then show ?thesis by (auto simp: ChannelService_start_def ChannelManager_start_def)
  next
    case True
    obtain res where "cleanup_loop (case options (opts (manager svc)) of None \<Rightarrow> [] | Some p \<Rightarrow> p) 0 []
        \<lparr>keyPrefix = (case options (opts (manager svc)) of None \<Rightarrow> [] | Some p \<Rightarrow> p), db = srv, sent = 0\<rparr> = Some res"
      using cleanup_loop_total by blast
    with True show ?thesis
      by (cases res; cases "fst res")
         (auto simp: ChannelService_start_def ChannelManager_start_def ChannelManager_cleanup_def)
  qed
  have 2: "state (snd (ChannelService_pushMessage svc serverType route msg c opts')) = state svc"
    by (simp add: ChannelService_pushMessage_def state_push_loop split: option.splits)
  have 3: "state (fst (snd (ChannelService_destroy svc c))) = state svc"
    by (simp add: ChannelService_destroy_def split: prod.splits)
  show ?thesis
    using 1 2 3
    by (simp add: ChannelService_stop_def ChannelService_add_def ChannelService_leave_def
          ChannelService_len_def ChannelService_members_def
          ChannelService_ismember_def ChannelService_channels_def)
qed

theorem lifecycle_witness:
  "state (ChannelService_stop False example_service) = ST_CLOSED \<and>
   state (snd (ChannelService_add (ChannelService_stop False example_service) ''lobby'' ''u1'' ''srvA''))
     = ST_CLOSED"
proof -
  have a: "state (ChannelService_stop False example_service) = ST_CLOSED"
    by (rule lifecycle [THEN conjunct2, THEN conjunct1])
  have b: "state (snd (ChannelService_add (ChannelService_stop False example_service) ''lobby'' ''u1'' ''srvA''))
             = state (ChannelService_stop False example_service)"
    by (rule lifecycle [THEN conjunct2, THEN conjunct2, THEN conjunct1])
  from a b show ?thesis by simp
qed

section \<open>Cleanup at start-up\<close>

lemma cleanup_stale:
  "cleanup_loop ''{POMELO-GLOBALCHANNEL}'' 0 []
     \<lparr>keyPrefix = ''{POMELO-GLOBALCHANNEL}'', db = stale_store, sent = 0\<rparr> =
   Some (Inr [''{POMELO-GLOBALCHANNEL}c#lobby''],
         \<lparr>keyPrefix = ''{POMELO-GLOBALCHANNEL}'', db = stale_store, sent = 2\<rparr>)"
  by (subst cleanup_loop.simps)
     (simp add: scan_def Let_def stale_store_def forget_def del_def issue_def)

text \<open>
  C8. \<open>cleanup\<close> pages through the keyspace with \<open>SCAN\<close>, 100 keys a page, and passes the
  keys it finds to \<open>del\<close> as they come back, prefix included; the client prepends the
  prefix once more, so \<open>del\<close> names keys that do not exist. Started with
  \<open>cleanOnStartUp\<close> on \<open>stale_store\<close>, the service signals completion with the registry
  key still in the store.
\<close>

theorem cleanup_keeps_registry_keys:
  "ChannelService_start stale_store True
     (new_ChannelService example_app \<lparr>options = None, cleanOnStartUp = True\<rparr>) =
   Some (True,
     \<lparr>app = example_app, cleanOnStartUp_opt = True,
      manager = \<lparr>opts = \<lparr>options = Some ''{POMELO-GLOBALCHANNEL}'', cleanOnStartUp = True\<rparr>,
                 redis = Some \<lparr>keyPrefix = ''{POMELO-GLOBALCHANNEL}'', db = stale_store, sent = 2\<rparr>\<rparr>,
      state = ST_STARTED\<rparr>)"
  by (simp add: ChannelService_start_def ChannelManager_start_def ChannelManager_cleanup_def
        new_ChannelService_def new_ChannelManager_def DEFALT_PREFIX_def cleanup_stale)

section \<open>Pushing to a channel\<close>

lemma member_list_eq:
  "running svc \<Longrightarrow> member_list svc ch ident =
     (if ident \<noteq> [] then set_in svc (''s#'' @ ch @ '':'' @ ident) else map fst (hash_in svc (''c#'' @ ch)))"
  by (simp add: member_list_def members_eff truthy_def)

lemma running_app [simp]: "running (svc\<lparr>app := a\<rparr>) = running svc"
  by (simp add: running_def)
lemma hash_in_app [simp]: "hash_in (svc\<lparr>app := a\<rparr>) k = hash_in svc k"
  by (simp add: hash_in_def)
lemma set_in_app [simp]: "set_in (svc\<lparr>app := a\<rparr>) k = set_in svc k"
  by (simp add: set_in_def)

lemma member_list_tick: "running svc \<Longrightarrow> member_list (tick svc) ch ident = member_list svc ch ident"
  by (simp add: member_list_eq)

lemma member_list_app:
  "running svc \<Longrightarrow> member_list (tick svc\<lparr>app := a\<rparr>) ch ident = member_list svc ch ident"
  by (simp add: member_list_eq)

lemma members_as_list:
  "running svc \<Longrightarrow> ChannelService_members svc ch (Some ident) = (Inr (Some (member_list svc ch ident)), tick svc)"
  by (simp add: member_list_def members_eff)

lemma push_loop_eff:
  "running svc \<Longrightarrow>
     fst (push_loop route msg ch servers users svc) =
       Inr (Some (users @ concat (map (member_list svc ch) (filter (\<lambda>ident. member_list svc ch ident \<noteq> []) servers)))) \<and>
     invoked (app (snd (push_loop route msg ch servers users svc))) =
       invoked (app svc) @
       map (\<lambda>ident. (ident, envelope route msg (member_list svc ch ident)))
         (filter (\<lambda>ident. member_list svc ch ident \<noteq> []) servers)"
proof (induction servers arbitrary: users svc)
  case Nil
  show ?case by simp
next
  case (Cons ident servers)
  let ?uids = "member_list svc ch ident"
  show ?case
  proof (cases "?uids = []")
    case True
    have "push_loop route msg ch (ident # servers) users svc = push_loop route msg ch servers users (tick svc)"
      using True by (simp add: members_as_list [OF Cons.prems])
    moreover have "running (tick svc)" using Cons.prems by simp
    ultimately show ?thesis
      using True Cons.IH [of "tick svc" users]
      by (simp add: member_list_tick [OF Cons.prems])
  next
    case False
    let ?svc1 = "tick svc\<lparr>app := rpcInvoke ident (envelope route msg ?uids) (app (tick svc))\<rparr>"
    have "push_loop route msg ch (ident # servers) users svc =
          push_loop route msg ch servers (users @ ?uids) ?svc1"
      using False by (simp add: members_as_list [OF Cons.prems] envelope_def)
    moreover have "running ?svc1" using Cons.prems by simp
    ultimately show ?thesis
      using False Cons.IH [of ?svc1 "users @ ?uids"]
      by (simp add: member_list_app [OF Cons.prems] rpcInvoke_def)
  qed
qed

text \<open>
  C6. In the started state \<open>pushMessage\<close> makes one remote call for each resolved server
  whose member list for the channel is not empty, in the directory's order, and none for
  the others; each call carries namespace \<open>sys\<close>, service \<open>channelRemote\<close>, method
  \<open>pushMessage\<close> and the arguments \<open>[route, msg, uids, {isPush: true}]\<close>, \<open>uids\<close> being that
  server's member list.
\<close>

theorem push_targets:
  assumes "started svc"
  shows "invoked (app (snd (ChannelService_pushMessage svc serverType route msg channelName opts'))) =
         invoked (app svc) @
         map (\<lambda>ident. (ident, \<lparr>namespace = ''sys'', service = ''channelRemote'',
                                 method_name = ''pushMessage'',
                                 args = (route, msg, member_list svc channelName ident, True)\<rparr>))
           (filter (\<lambda>ident. member_list svc channelName ident \<noteq> []) (resolved_servers svc serverType))"
proof -
  have r: "running svc" using assms by (rule started_running)
  then have st: "state svc = ST_STARTED" by (simp add: running_def)
  show ?thesis
  proof (cases "getServersByType (app svc) serverType")
    case None
    with st show ?thesis by (simp add: ChannelService_pushMessage_def resolved_servers_def)
  next
    case (Some servers)
    with st show ?thesis
      using push_loop_eff [OF r, of route msg channelName servers "[]"]
      by (cases "servers = []")
         (simp_all add: ChannelService_pushMessage_def resolved_servers_def envelope_def)
  qed
qed

theorem push_targets_witness:
  "started lobby_service \<and>
   invoked (app (snd (ChannelService_pushMessage lobby_service ''connector'' ''chat'' ''hi'' ''lobby'' ()))) =
     [(''srvA'', \<lparr>namespace = ''sys'', service = ''channelRemote'', method_name = ''pushMessage'',
                  args = (''chat'', ''hi'', [''u1''], True)\<rparr>)]"
proof -
  have h: "started lobby_service" by code_simp
  have a: "member_list lobby_service ''lobby'' ''srvA'' = [''u1'']" by code_simp
  have b: "member_list lobby_service ''lobby'' ''srvB'' = []" by code_simp
  have c: "resolved_servers lobby_service ''connector'' = [''srvA'', ''srvB'']" by code_simp
  have d: "invoked (app lobby_service) = []" by code_simp
  show ?thesis
    using h push_targets [OF h, of "''connector''" "''chat''" "''hi''" "''lobby''" "()"]
    by (simp add: a b c d)
qed

text \<open>
  C9. In the started state, when the directory resolves at least one server,
  \<open>pushMessage\<close> resolves with the member lists of the servers it called, concatenated in
  the directory's order.
\<close>

theorem push_returns_users:
  assumes "started svc" and "getServersByType (app svc) serverType = Some servers" and "servers \<noteq> []"
  shows "fst (ChannelService_pushMessage svc serverType route msg channelName opts') =
         Inr (Some (concat (map (member_list svc channelName)
                      (filter (\<lambda>ident. member_list svc channelName ident \<noteq> []) servers))))"
proof -
  have r: "running svc" using assms(1) by (rule started_running)
  then have st: "state svc = ST_STARTED" by (simp add: running_def)
  with assms(2,3) show ?thesis
    using push_loop_eff [OF r, of route msg channelName servers "[]"]
    by (simp add: ChannelService_pushMessage_def)
qed

theorem push_returns_users_witness:
  "started lobby_service \<and>
   fst (ChannelService_pushMessage lobby_service ''connector'' ''chat'' ''hi'' ''lobby'' ()) =
     Inr (Some [''u1''])"
proof -
  have h: "started lobby_service" by code_simp
  have s: "getServersByType (app lobby_service) ''connector'' = Some [''srvA'', ''srvB'']" by code_simp
  have n: "[''srvA'', ''srvB''] \<noteq> ([] :: string list)" by simp
  have a: "member_list lobby_service ''lobby'' ''srvA'' = [''u1'']" by code_simp
  have b: "member_list lobby_service ''lobby'' ''srvB'' = []" by code_simp
  show ?thesis
    using h push_returns_users [OF h s n, of "''chat''" "''hi''" "''lobby''" "()"]
    by (simp add: a b)
qed

section \<open>Destroying a channel\<close>

text \<open>
  The two halves make up \<open>leave\<close>: a \<open>leave\<close> without a server leaves the manager as
  \<open>leave_start\<close> followed by \<open>leave_resume\<close> does.
\<close>

lemma leave_start_resume:
  "snd (ChannelManager_leave m channel uid None) =
     fold leave_resume (snd (leave_start m channel uid)) (fst (leave_start m channel uid))"
  by (auto simp: ChannelManager_leave_def leave_start_def io_defs split: option.splits prod.splits sum.splits)

lemma same_store_refl [simp]: "same_store r r"
  by (simp add: same_store_def)

lemma same_store_issue [simp]: "same_store r (issue r)"
  by (simp add: same_store_def issue_def)

lemma same_store_trans: "same_store r r1 \<Longrightarrow> same_store r1 r2 \<Longrightarrow> same_store r r2"
  by (simp add: same_store_def)

lemma same_store_lookup: "same_store r r' \<Longrightarrow> lookup r' k = lookup r k"
  by (simp add: same_store_def lookup_def)

lemma same_store_typed: "same_store r r' \<Longrightarrow> typed r' = typed r"
  by (simp add: typed_def hash_ok_def set_ok_def same_store_lookup)

lemma same_store_views:
  "same_store r r' \<Longrightarrow> hash_at r' k = hash_at r k \<and> set_at r' k = set_at r k"
  by (simp add: hash_at_def set_at_def same_store_lookup)

lemma leave_start_same:
  assumes "redis m = Some r" and "typed r"
  shows "\<exists>r'. redis (fst (leave_start m c u)) = Some r' \<and> same_store r r'"
  using assms by (simp add: leave_start_def)

lemma start_leaves_same:
  assumes "redis m = Some r" and "typed r"
  shows "\<exists>r'. redis (fst (start_leaves m c uids)) = Some r' \<and> same_store r r'"
  using assms
proof (induction uids arbitrary: m r)
  case Nil
  then show ?case by simp
next
  case (Cons u uids)
  from leave_start_same [OF Cons.prems, of c u] obtain r1
    where r1: "redis (fst (leave_start m c u)) = Some r1" and s1: "same_store r r1" by blast
  from s1 Cons.prems(2) have t1: "typed r1" by (simp add: same_store_typed)
  from Cons.IH [OF r1 t1] obtain r'
    where "redis (fst (start_leaves (fst (leave_start m c u)) c uids)) = Some r'"
      and "same_store r1 r'" by blast
  with s1 show ?case
    by (auto simp: split: prod.splits intro: same_store_trans)
qed

text \<open>
  Whatever the started state, when \<open>destroy\<close> resolves the indexes are as they were
  before the call, so \<open>len\<close> answers what it answered before.
\<close>

lemma destroy_resolves_unchanged:
  assumes "running svc"
  shows "fst (ChannelService_destroy svc c) = Inr None \<and>
         running (fst (snd (ChannelService_destroy svc c))) \<and>
         hash_in (fst (snd (ChannelService_destroy svc c))) k = hash_in svc k \<and>
         set_in (fst (snd (ChannelService_destroy svc c))) k = set_in svc k"
proof -
  from assms obtain r where st: "state svc = ST_STARTED" and r: "redis (manager svc) = Some r"
    and t: "typed r"
    by (auto simp: running_def split: option.splits)
  let ?m1 = "(manager svc)\<lparr>redis := Some (issue r)\<rparr>"
  let ?uids = "map fst (hash_at r (''c#'' @ c))"
  have m: "ChannelManager_members (manager svc) c None = (Inr (Some ?uids), ?m1)"
    using r t by (simp add: ChannelManager_members_def io_defs)
  have "redis ?m1 = Some (issue r)" and "typed (issue r)" using t by simp_all
  from start_leaves_same [OF this, of c ?uids] obtain r'
    where r': "redis (fst (start_leaves ?m1 c ?uids)) = Some r'"
      and s: "same_store (issue r) r'" by blast
  have s': "same_store r r'" using s by (simp add: same_store_def issue_def)
  have d: "ChannelService_destroy svc c =
      (Inr None, svc\<lparr>manager := fst (start_leaves ?m1 c ?uids)\<rparr>, snd (start_leaves ?m1 c ?uids))"
    using st r by (simp add: ChannelService_destroy_def ChannelManager_destroy_def m split: prod.splits)
  show ?thesis
    unfolding d using st r r' t s'
    by (simp add: running_def hash_in_def set_in_def same_store_typed same_store_views)
qed

lemma destroy_resolves_same_len:
  assumes "started svc"
  shows "fst (ChannelService_len (fst (snd (ChannelService_destroy svc c))) c) =
         fst (ChannelService_len svc c)"
proof -
  have r: "running svc" using assms by (rule started_running)
  from destroy_resolves_unchanged [OF r, of c "''c#'' @ c"]
  have r1: "running (fst (snd (ChannelService_destroy svc c)))"
    and h: "hash_in (fst (snd (ChannelService_destroy svc c))) (''c#'' @ c) = hash_in svc (''c#'' @ c)"
    by simp_all
  show ?thesis using h by (simp add: len_eff [OF r1] len_eff [OF r])
qed

text \<open>
  C4. \<open>destroy\<close> resolves while the \<open>leave\<close>s it started are still suspended. On
  \<open>lobby_of_three\<close>, where \<open>len(lobby)\<close> is \<open>3\<close>: \<open>destroy(lobby)\<close> resolves with three
  \<open>leave\<close>s suspended, and on the service it returns \<open>len(lobby)\<close> is still \<open>3\<close> and
  \<open>members(lobby)\<close> still lists the three users. Only once the suspended \<open>leave\<close>s have
  resumed is \<open>len(lobby)\<close> \<open>0\<close>.
\<close>

theorem destroy_resolves_before_leaves:
  "fst (ChannelService_len lobby_of_three ''lobby'') = Inr (Some 3) \<and>
   fst (ChannelService_destroy lobby_of_three ''lobby'') = Inr None \<and>
   snd (snd (ChannelService_destroy lobby_of_three ''lobby'')) =
     [Suspended ''lobby'' ''u1'' (Inr (Some ''srvA'')),
      Suspended ''lobby'' ''u2'' (Inr (Some ''srvA'')),
      Suspended ''lobby'' ''u3'' (Inr (Some ''srvB''))] \<and>
   fst (ChannelService_len (fst (snd (ChannelService_destroy lobby_of_three ''lobby''))) ''lobby'')
     = Inr (Some 3) \<and>
   fst (ChannelService_members (fst (snd (ChannelService_destroy lobby_of_three ''lobby''))) ''lobby'' None)
     = Inr (Some [''u1'', ''u2'', ''u3'']) \<and>
   fst (ChannelService_len
          (resume_leaves (snd (snd (ChannelService_destroy lobby_of_three ''lobby'')))
             (fst (snd (ChannelService_destroy lobby_of_three ''lobby'')))) ''lobby'')
     = Inr (Some 0)"
  by code_simp

end
